theory Spec2Isabelle
  imports Complex_Main
begin

section \<open>Data model of \<open>layout/edge/point.ts\<close>\<close>

text \<open>
  JavaScript numbers are modelled as real numbers (no rounding, no NaN, no infinities);
  \<open>Math.floor\<close> is the integer floor, read back as a real.
\<close>

datatype Position = Left | Top | Right | Bottom

record ControlPoint =
  id :: string
  x :: real
  y :: real

record NodeRect =
  rx :: real
  ry :: real
  width :: real
  height :: real

record RectSides =
  top :: real
  right :: real
  bottom :: real
  left :: real

record HandlePosition = ControlPoint +
  position :: Position

datatype error = TypeError

text \<open>
  The point of a handle as an element of a \<open>ControlPoint[]\<close> array: the fields of the
  \<open>ControlPoint\<close> interface. (The \<open>position\<close> property is not part of that interface
  and is not tracked on array elements.)
\<close>

definition asControlPoint :: "HandlePosition \<Rightarrow> ControlPoint" where
  "asControlPoint h = \<lparr>id = id h, x = x h, y = y h\<rparr>"

text \<open>
  Modelled from the spec: \<open>isHorizontalFromPosition\<close> lives in \<open>./edge\<close>, which is not
  among the sources. The spec says an anchor's side "determines whether an offset/drag
  along that anchor moves along the x or y axis" (Left and Right: the x axis).
\<close>

definition isHorizontalFromPosition :: "Position \<Rightarrow> bool" where
  "isHorizontalFromPosition pos = (pos = Left \<or> pos = Right)"

section \<open>Geometry primitives\<close>

definition isRectOverLapping :: "NodeRect \<Rightarrow> NodeRect \<Rightarrow> bool" where
  "isRectOverLapping rect1 rect2 =
     (\<bar>rx rect1 - rx rect2\<bar> < (width rect1 + width rect2) / 2 \<and>
      \<bar>ry rect1 - ry rect2\<bar> < (height rect1 + height rect2) / 2)"

definition getRectSides :: "NodeRect \<Rightarrow> RectSides" where
  "getRectSides box =
     \<lparr>top = ry box, right = rx box + width box, bottom = ry box + height box, left = rx box\<rparr>"

text \<open>
  \<open>uuid()\<close> draws a fresh identifier at each call; the supply is a parameter, \<open>uuid k\<close>
  being the identifier of the \<open>k\<close>-th call.
\<close>

definition getRectVerticesFromSides :: "(nat \<Rightarrow> string) \<Rightarrow> RectSides \<Rightarrow> ControlPoint list" where
  "getRectVerticesFromSides uuid s =
     [\<lparr>id = uuid 0, x = left s, y = top s\<rparr>,
      \<lparr>id = uuid 1, x = right s, y = top s\<rparr>,
      \<lparr>id = uuid 2, x = right s, y = bottom s\<rparr>,
      \<lparr>id = uuid 3, x = left s, y = bottom s\<rparr>]"

definition getRectVertices :: "(nat \<Rightarrow> string) \<Rightarrow> NodeRect \<Rightarrow> ControlPoint list" where
  "getRectVertices uuid box = getRectVerticesFromSides uuid (getRectSides box)"

definition isInLine :: "ControlPoint \<Rightarrow> ControlPoint \<Rightarrow> ControlPoint \<Rightarrow> bool" where
  "isInLine p p1 p2 =
     (let xPoints = (if x p1 < x p2 then (x p1, x p2) else (x p2, x p1));
          yPoints = (if y p1 < y p2 then (y p1, y p2) else (y p2, y p1))
      in (x p1 = x p \<and> x p = x p2 \<and> y p \<ge> fst yPoints \<and> y p \<le> snd yPoints) \<or>
         (y p1 = y p \<and> y p = y p2 \<and> x p \<ge> fst xPoints \<and> x p \<le> snd xPoints))"

definition isEqualPoint :: "ControlPoint \<Rightarrow> ControlPoint \<Rightarrow> bool" where
  "isEqualPoint p1 p2 = (x p1 = x p2 \<and> y p1 = y p2)"

section \<open>Point-set optimizer\<close>

subsection \<open>\<open>reducePoints\<close>\<close>

text \<open>
  The loop runs over the indices \<open>1 .. length - 2\<close> and tests each point against its
  neighbours in the input. For an empty array the source returns
  \<open>[undefined, undefined]\<close>, which is no list of points: \<open>None\<close>.
\<close>

definition reducePoints :: "ControlPoint list \<Rightarrow> ControlPoint list option" where
  "reducePoints points =
     (if points = [] then None
      else Some ([points ! 0] @
                 map (\<lambda>i. points ! i)
                   (filter (\<lambda>i. \<not> isInLine (points ! i) (points ! (i - 1)) (points ! (i + 1)))
                      [1 ..< length points - 1]) @
                 [points ! (length points - 1)]))"

subsection \<open>\<open>mergeClosePoints\<close>\<close>

datatype Axis = AxisX | AxisY

record Positions =
  pos_x :: "real list"
  pos_y :: "real list"

definition axisOf :: "Axis \<Rightarrow> Positions \<Rightarrow> real list" where
  "axisOf axis positions = (case axis of AxisX \<Rightarrow> pos_x positions | AxisY \<Rightarrow> pos_y positions)"

definition pushAxis :: "Axis \<Rightarrow> real \<Rightarrow> Positions \<Rightarrow> Positions" where
  "pushAxis axis v positions =
     (case axis of AxisX \<Rightarrow> positions\<lparr>pos_x := pos_x positions @ [v]\<rparr>
                 | AxisY \<Rightarrow> positions\<lparr>pos_y := pos_y positions @ [v]\<rparr>)"

text \<open>The closure \<open>findPosition\<close>: its result and the updated \<open>positions\<close>.\<close>

definition findPosition :: "real \<Rightarrow> Positions \<Rightarrow> Axis \<Rightarrow> real \<Rightarrow> real \<times> Positions" where
  "findPosition threshold positions axis v0 =
     (let v = real_of_int \<lfloor>v0\<rfloor>;
          ps = axisOf axis positions
      in case List.find (\<lambda>e. \<bar>v - e\<bar> < threshold) ps of
           Some p \<Rightarrow> (p, positions)
         | None \<Rightarrow> (v, pushAxis axis v positions))"

fun mergeLoop :: "real \<Rightarrow> Positions \<Rightarrow> ControlPoint list \<Rightarrow> ControlPoint list" where
  "mergeLoop threshold positions [] = []"
| "mergeLoop threshold positions (point # rest) =
     (let (px, positions1) = findPosition threshold positions AxisX (x point);
          (py, positions2) = findPosition threshold positions1 AxisY (y point)
      in point\<lparr>x := px, y := py\<rparr> # mergeLoop threshold positions2 rest)"

definition mergeClosePoints :: "ControlPoint list \<Rightarrow> real \<Rightarrow> ControlPoint list" where
  "mergeClosePoints points threshold = mergeLoop threshold \<lparr>pos_x = [], pos_y = []\<rparr> points"

subsection \<open>\<open>removeRepeatPoints\<close>\<close>

text \<open>
  The set holds the strings \<open>`${p.x}-${p.y}`\<close>. Two numbers print alike only when they
  are equal, and a number's text never ends in \<open>e\<close>, so the text is split at one place
  only: the key is modelled as the pair of coordinates.
\<close>

definition pointKey :: "ControlPoint \<Rightarrow> real \<times> real" where
  "pointKey p = (x p, y p)"

fun forEachPoint :: "(real \<times> real) list \<Rightarrow> ControlPoint list \<Rightarrow> ControlPoint list" where
  "forEachPoint uniquePoints [] = []"
| "forEachPoint uniquePoints [p] = [p]"
| "forEachPoint uniquePoints (p # q # rest) =
     (if pointKey p \<in> set uniquePoints then forEachPoint uniquePoints (q # rest)
      else p # forEachPoint (uniquePoints @ [pointKey p]) (q # rest))"

text \<open>\<open>lastP.x\<close> on an empty array reads a property of \<open>undefined\<close>: a TypeError.\<close>

definition removeRepeatPoints :: "ControlPoint list \<Rightarrow> error + ControlPoint list" where
  "removeRepeatPoints points =
     (if points = [] then Inl TypeError
      else Inr (forEachPoint [pointKey (points ! (length points - 1))] points))"

subsection \<open>\<open>optimizeInputPoints\<close>\<close>

definition digitChar :: "nat \<Rightarrow> char" where
  "digitChar d = ''0123456789'' ! d"

function stringOfNat :: "nat \<Rightarrow> string" where
  "stringOfNat n = (if n < 10 then [digitChar n] else stringOfNat (n div 10) @ [digitChar (n mod 10)])"
  by pat_completeness auto
termination
  by (relation "measure (\<lambda>n. n)") auto

declare stringOfNat.simps [simp del]

record OptimizePointsParams =
  edgePoints :: "ControlPoint list"
  source :: HandlePosition
  target :: HandlePosition
  sourceOffset :: ControlPoint
  targetOffset :: ControlPoint

record OptimizedPoints =
  res_source :: ControlPoint
  res_target :: ControlPoint
  res_sourceOffset :: ControlPoint
  res_targetOffset :: ControlPoint
  res_edgePoints :: "ControlPoint list"

definition renumber :: "ControlPoint list \<Rightarrow> ControlPoint list" where
  "renumber ps = map (\<lambda>(idx, p). p\<lparr>id := stringOfNat (idx + 1)\<rparr>) (enumerate 0 ps)"

text \<open>
  The merged array has at least four elements, so \<open>shift\<close>, \<open>pop\<close> and the two index
  reads that follow are defined.
\<close>

definition optimizeInputPoints :: "OptimizePointsParams \<Rightarrow> error + OptimizedPoints" where
  "optimizeInputPoints p =
     (let merged = mergeClosePoints
                     ([asControlPoint (source p), sourceOffset p] @ edgePoints p @
                      [targetOffset p, asControlPoint (target p)]) 4;
          source0 = hd merged;
          target0 = last merged;
          edgePoints1 = butlast (tl merged);
          sourceOffset1 = edgePoints1 ! 0;
          targetOffset1 = edgePoints1 ! (length edgePoints1 - 1);
          source1 = (if isHorizontalFromPosition (position (source p))
                     then source0\<lparr>x := x (source p)\<rparr> else source0\<lparr>y := y (source p)\<rparr>);
          target1 = (if isHorizontalFromPosition (position (target p))
                     then target0\<lparr>x := x (target p)\<rparr> else target0\<lparr>y := y (target p)\<rparr>)
      in case removeRepeatPoints edgePoints1 of
           Inl e \<Rightarrow> Inl e
         | Inr ps \<Rightarrow>
             Inr \<lparr>res_source = source1, res_target = target1,
                  res_sourceOffset = sourceOffset1, res_targetOffset = targetOffset1,
                  res_edgePoints = renumber ps\<rparr>)"

section \<open>Intersection engine\<close>

definition isSegmentsIntersected ::
  "ControlPoint \<Rightarrow> ControlPoint \<Rightarrow> ControlPoint \<Rightarrow> ControlPoint \<Rightarrow> bool" where
  "isSegmentsIntersected p0 p1 p2 p3 =
     (let s1x = x p1 - x p0; s1y = y p1 - y p0;
          s2x = x p3 - x p2; s2y = y p3 - y p2
      in if s1x * s2y - s1y * s2x = 0 then False
         else
           let denominator = - s2x * s1y + s1x * s2y;
               s = (s1y * (x p2 - x p0) - s1x * (y p2 - y p0)) / denominator;
               t = (s2x * (y p0 - y p2) - s2y * (x p0 - x p2)) / denominator
           in s \<ge> 0 \<and> s \<le> 1 \<and> t \<ge> 0 \<and> t \<le> 1)"

definition isSegmentCrossingRect ::
  "(nat \<Rightarrow> string) \<Rightarrow> ControlPoint \<Rightarrow> ControlPoint \<Rightarrow> NodeRect \<Rightarrow> bool" where
  "isSegmentCrossingRect uuid p1 p2 box =
     (if width box = 0 \<and> height box = 0 then False
      else
        let vs = getRectVertices uuid box;
            topLeft = vs ! 0; topRight = vs ! 1; bottomRight = vs ! 2; bottomLeft = vs ! 3
        in isSegmentsIntersected p1 p2 topLeft topRight \<or>
           isSegmentsIntersected p1 p2 topRight bottomRight \<or>
           isSegmentsIntersected p1 p2 bottomRight bottomLeft \<or>
           isSegmentsIntersected p1 p2 bottomLeft topLeft)"

section \<open>The drag handler of \<open>EdgeController\<close>\<close>

record XYPosition =
  sx :: real
  sy :: real

record ILine =
  start :: ControlPoint
  end' :: ControlPoint

record DragEvent =
  dragId :: "string option"
  from_line :: ILine
  to_line :: ILine

text \<open>
  \<open>screenToFlowPosition\<close> is supplied by the host: a parameter. The difference of the new
  and the old diagram positions is the diagram-space delta.
\<close>

definition flowDelta :: "(XYPosition \<Rightarrow> XYPosition) \<Rightarrow> XYPosition \<Rightarrow> XYPosition \<Rightarrow> XYPosition" where
  "flowDelta screenToFlowPosition pos delta =
     (let oldFlowPosition = screenToFlowPosition \<lparr>sx = sx pos - sx delta, sy = sy pos - sy delta\<rparr>;
          newFlowPosition = screenToFlowPosition pos
      in \<lparr>sx = sx newFlowPosition - sx oldFlowPosition,
          sy = sy newFlowPosition - sy oldFlowPosition\<rparr>)"

text \<open>The event that the handler passes to the edge's \<open>onDragging\<close> callback.\<close>

definition onDragging ::
  "(XYPosition \<Rightarrow> XYPosition) \<Rightarrow> ILine \<Rightarrow> string option \<Rightarrow> XYPosition \<Rightarrow> XYPosition \<Rightarrow> DragEvent" where
  "onDragging screenToFlowPosition edge dragId0 pos delta =
     (let isHorizontal = (y (start edge) = y (end' edge));
          fd = flowDelta screenToFlowPosition pos delta;
          newStart = start edge;
          newEnd = end' edge;
          (newStart1, newEnd1) =
            (if isHorizontal
             then (newStart\<lparr>y := y newStart + sy fd\<rparr>, newEnd\<lparr>y := y newEnd + sy fd\<rparr>)
             else (newStart\<lparr>x := x newStart + sx fd\<rparr>, newEnd\<lparr>x := x newEnd + sx fd\<rparr>))
      in \<lparr>dragId = dragId0,
          from_line = \<lparr>start = start edge, end' = end' edge\<rparr>,
          to_line = \<lparr>start = newStart1, end' = newEnd1\<rparr>\<rparr>)"

section \<open>Auxiliary definitions for the statements\<close>

text \<open>Concrete inputs: a point, an identifier supply and a screen-to-diagram transform
  (zoom 2, pan 10).\<close>

definition mkPoint :: "string \<Rightarrow> real \<Rightarrow> real \<Rightarrow> ControlPoint" where
  "mkPoint i a b = \<lparr>id = i, x = a, y = b\<rparr>"

definition sampleUuid :: "nat \<Rightarrow> string" where
  "sampleUuid k = ''v'' @ stringOfNat k"

definition sampleScreenToFlow :: "XYPosition \<Rightarrow> XYPosition" where
  "sampleScreenToFlow p = \<lparr>sx = sx p / 2 - 10, sy = sy p / 2 - 10\<rparr>"

text \<open>
  The overlap test in the specification's words: the centres of the two rects are closer
  than half the sum of the extents, on both axes.
\<close>

definition centresCloser :: "NodeRect \<Rightarrow> NodeRect \<Rightarrow> bool" where
  "centresCloser rectA rectB =
     (\<bar>(rx rectA + width rectA / 2) - (rx rectB + width rectB / 2)\<bar> < (width rectA + width rectB) / 2 \<and>
      \<bar>(ry rectA + height rectA / 2) - (ry rectB + height rectB / 2)\<bar> < (height rectA + height rectB) / 2)"

text \<open>
  The duplicate-removal policy in the specification's words: a point is dropped when a
  later point has its coordinates, the first and the last point being kept always.
\<close>

definition dropEarlierDuplicates :: "ControlPoint list \<Rightarrow> ControlPoint list" where
  "dropEarlierDuplicates points =
     map (\<lambda>i. points ! i)
       (filter (\<lambda>i. i = 0 \<or> i = length points - 1 \<or>
                     pointKey (points ! i) \<notin> set (map pointKey (drop (i + 1) points)))
          [0 ..< length points])"

text \<open>
  The policy of the code: besides the first and the last point, a point is kept when no
  earlier point has its coordinates and the last point has not either.
\<close>

definition keptIndex :: "ControlPoint list \<Rightarrow> nat \<Rightarrow> bool" where
  "keptIndex points i =
     (i = 0 \<or> i = length points - 1 \<or>
      (pointKey (points ! i) \<notin> set (map pointKey (take i points)) \<and>
       pointKey (points ! i) \<noteq> pointKey (points ! (length points - 1))))"

text \<open>
  One axis of \<open>mergeClosePoints\<close> on its own: the representatives that \<open>findPosition\<close>
  returns for a list of raw coordinates, the list of positions that it leaves behind, and
  what it means for a set of positions to be pairwise at least a threshold apart.
\<close>

fun snap :: "real \<Rightarrow> real list \<Rightarrow> real list \<Rightarrow> real list" where
  "snap t ps [] = []"
| "snap t ps (v0 # vs) =
     (case List.find (\<lambda>e. \<bar>real_of_int \<lfloor>v0\<rfloor> - e\<bar> < t) ps of
        Some p \<Rightarrow> p # snap t ps vs
      | None \<Rightarrow> real_of_int \<lfloor>v0\<rfloor> # snap t (ps @ [real_of_int \<lfloor>v0\<rfloor>]) vs)"

fun snapPos :: "real \<Rightarrow> real list \<Rightarrow> real list \<Rightarrow> real list" where
  "snapPos t ps [] = ps"
| "snapPos t ps (v0 # vs) =
     (case List.find (\<lambda>e. \<bar>real_of_int \<lfloor>v0\<rfloor> - e\<bar> < t) ps of
        Some p \<Rightarrow> snapPos t ps vs
      | None \<Rightarrow> snapPos t (ps @ [real_of_int \<lfloor>v0\<rfloor>]) vs)"

definition separated :: "real \<Rightarrow> real set \<Rightarrow> bool" where
  "separated t S = (\<forall>a\<in>S. \<forall>b\<in>S. \<bar>a - b\<bar> < t \<longrightarrow> a = b)"

text \<open>
  The keys that \<open>forEachPoint\<close> keeps among the points before the last one: those not seen
  before.
\<close>

fun firstSeen :: "'k list \<Rightarrow> 'k list \<Rightarrow> 'k list" where
  "firstSeen seen [] = []"
| "firstSeen seen (k # ks) =
     (if k \<in> set seen then firstSeen seen ks else k # firstSeen (seen @ [k]) ks)"

text \<open>
  The array that \<open>optimizeInputPoints\<close> hands to \<open>mergeClosePoints\<close>, and the correction of
  an endpoint to its anchor's coordinate.
\<close>

definition optimizerInput :: "OptimizePointsParams \<Rightarrow> ControlPoint list" where
  "optimizerInput p =
     [asControlPoint (source p), sourceOffset p] @ edgePoints p @
     [targetOffset p, asControlPoint (target p)]"

definition correctEnd :: "HandlePosition \<Rightarrow> ControlPoint \<Rightarrow> ControlPoint" where
  "correctEnd h c = (if isHorizontalFromPosition (position h) then c\<lparr>x := x h\<rparr> else c\<lparr>y := y h\<rparr>)"

text \<open>
  Running the optimizer on its own output: the returned points become the parameters, the
  two anchors keeping their sides.
\<close>

definition withPosition :: "ControlPoint \<Rightarrow> Position \<Rightarrow> HandlePosition" where
  "withPosition c pos = \<lparr>id = id c, x = x c, y = y c, position = pos\<rparr>"

definition feedBack :: "OptimizePointsParams \<Rightarrow> OptimizedPoints \<Rightarrow> OptimizePointsParams" where
  "feedBack p r =
     \<lparr>edgePoints = res_edgePoints r,
      source = withPosition (res_source r) (position (source p)),
      target = withPosition (res_target r) (position (target p)),
      sourceOffset = res_sourceOffset r,
      targetOffset = res_targetOffset r\<rparr>"

text \<open>
  A concrete run: a source and a target handle, their offset points and three raw edge
  points between them, and the result of the optimizer on them (source on the Right side,
  target on the Top side).
\<close>

definition mkHandle :: "string \<Rightarrow> real \<Rightarrow> real \<Rightarrow> Position \<Rightarrow> HandlePosition" where
  "mkHandle i a b pos = \<lparr>id = i, x = a, y = b, position = pos\<rparr>"

definition sampleParams :: "Position \<Rightarrow> Position \<Rightarrow> OptimizePointsParams" where
  "sampleParams sp tp =
     \<lparr>edgePoints = [mkPoint ''a'' (61/2) (207/10), mkPoint ''b'' (61/2) (799/10),
                    mkPoint ''c'' (2032/10) (819/10)],
      source = mkHandle ''s'' (21/2) (207/10) sp,
      target = mkHandle ''t'' (2032/10) (1999/10) tp,
      sourceOffset = mkPoint ''so'' (61/2) (207/10),
      targetOffset = mkPoint ''to'' (2032/10) (1799/10)\<rparr>"

definition sampleResult :: OptimizedPoints where
  "sampleResult =
     \<lparr>res_source = mkPoint ''s'' (21/2) 20, res_target = mkPoint ''t'' 203 (1999/10),
      res_sourceOffset = mkPoint ''so'' 30 20, res_targetOffset = mkPoint ''to'' 203 179,
      res_edgePoints = [mkPoint ''1'' 30 20, mkPoint ''2'' 30 79, mkPoint ''3'' 203 79,
                        mkPoint ''4'' 203 179]\<rparr>"

section \<open>Geometry and intersection\<close>

text \<open>
  Claim C7 (rectangle overlap test). The claim reads \<open>isRectOverLapping\<close> as the
  test on the distance of the centres. The code compares the distance of the top-left
  corners with half the sum of the extents: on a 10 by 10 rect at (0,0) and a 2 by 10 rect
  at (8,0), which overlap and whose centres are 4 apart, it answers false.
\<close>

theorem isRectOverLapping_misses_overlap:
  "\<not> isRectOverLapping \<lparr>rx = 0, ry = 0, width = 10, height = 10\<rparr> \<lparr>rx = 8, ry = 0, width = 2, height = 10\<rparr> \<and>
   centresCloser \<lparr>rx = 0, ry = 0, width = 10, height = 10\<rparr> \<lparr>rx = 8, ry = 0, width = 2, height = 10\<rparr>"
  by (simp add: isRectOverLapping_def centresCloser_def)

text \<open>
  Claim C6 (degenerate obstacle rect), as the code has it: for a rect whose width is 0
  and whose height is 0, \<open>isSegmentCrossingRect\<close> returns false for every segment.
\<close>

theorem isSegmentCrossingRect_degenerate:
  "width box = 0 \<and> height box = 0 \<Longrightarrow> \<not> isSegmentCrossingRect uuid p1 p2 box"
  by (simp add: isSegmentCrossingRect_def)

theorem isSegmentCrossingRect_degenerate_witness:
  "width \<lparr>rx = 3, ry = 4, width = 0, height = 0\<rparr> = 0 \<and>
   height \<lparr>rx = 3, ry = 4, width = 0, height = 0\<rparr> = 0 \<and>
   \<not> isSegmentCrossingRect sampleUuid (mkPoint ''p'' 0 4) (mkPoint ''q'' 9 4)
        \<lparr>rx = 3, ry = 4, width = 0, height = 0\<rparr>"
  using isSegmentCrossingRect_degenerate
    [of "\<lparr>rx = 3, ry = 4, width = 0, height = 0\<rparr>" sampleUuid "mkPoint ''p'' 0 4" "mkPoint ''q'' 9 4"]
  by simp

text \<open>
  With a width of 0 only, the guard does not apply: the horizontal segment from (-5,5) to
  (5,5) crosses the rect at (0,0) of width 0 and height 10.
\<close>

theorem isSegmentCrossingRect_zero_width_counterexample:
  "width \<lparr>rx = 0, ry = 0, width = 0, height = 10\<rparr> = 0 \<and>
   isSegmentCrossingRect sampleUuid (mkPoint ''p'' (-5) 5) (mkPoint ''q'' 5 5)
      \<lparr>rx = 0, ry = 0, width = 0, height = 10\<rparr>"
  by (simp add: isSegmentCrossingRect_def getRectVertices_def getRectVerticesFromSides_def
        getRectSides_def isSegmentsIntersected_def mkPoint_def)

section \<open>\<open>reducePoints\<close>\<close>

text \<open>
  Claim C10 (endpoints of \<open>reducePoints\<close>). For an input of length at least 2 the output
  starts with the input's first point and ends with its last point; for a one-point input
  the output is that point twice.
\<close>

theorem reducePoints_endpoints:
  "(2 \<le> length points \<longrightarrow>
      (\<exists>out. reducePoints points = Some out \<and> hd out = hd points \<and> last out = last points)) \<and>
   reducePoints [p] = Some [p, p]"
  by (auto simp: reducePoints_def hd_conv_nth last_conv_nth)

theorem reducePoints_endpoints_witness:
  "2 \<le> length [mkPoint ''a'' 0 0, mkPoint ''b'' 0 5, mkPoint ''c'' 0 9] \<and>
   (\<exists>out. reducePoints [mkPoint ''a'' 0 0, mkPoint ''b'' 0 5, mkPoint ''c'' 0 9] = Some out \<and>
      hd out = mkPoint ''a'' 0 0 \<and> last out = mkPoint ''c'' 0 9) \<and>
   reducePoints [mkPoint ''a'' 0 0] = Some [mkPoint ''a'' 0 0, mkPoint ''a'' 0 0]"
  using reducePoints_endpoints [of "[mkPoint ''a'' 0 0, mkPoint ''b'' 0 5, mkPoint ''c'' 0 9]" "mkPoint ''a'' 0 0"]
  by simp

text \<open>
  Claim C5 (no collinear interior point). Each point is tested against its neighbours in
  the input, not against the points that are kept: on (0,0), (7,0), (7,0), (5,0), (10,0)
  the two points (7,0) are dropped and (5,0) stays, on the segment between its new
  neighbours (0,0) and (10,0).
\<close>

theorem reducePoints_keeps_collinear_point:
  "reducePoints [mkPoint ''a'' 0 0, mkPoint ''b'' 7 0, mkPoint ''c'' 7 0, mkPoint ''d'' 5 0, mkPoint ''e'' 10 0]
     = Some [mkPoint ''a'' 0 0, mkPoint ''d'' 5 0, mkPoint ''e'' 10 0] \<and>
   isInLine (mkPoint ''d'' 5 0) (mkPoint ''a'' 0 0) (mkPoint ''e'' 10 0)"
  by (simp add: reducePoints_def mkPoint_def isInLine_def upt_rec)

section \<open>The drag handler\<close>

text \<open>
  Claim C8 (drag translation), as the code has it. The event's \<open>from\<close> is the segment as
  it was. On a horizontal segment (equal y) both endpoints keep x and move by the
  diagram-space delta's y; on every other segment, so on each vertical segment of non-zero
  length, both endpoints keep y and move by the delta's x.
\<close>

theorem onDragging_perpendicular:
  "from_line (onDragging s2f edge did pos delta) = \<lparr>start = start edge, end' = end' edge\<rparr> \<and>
   (y (start edge) = y (end' edge) \<longrightarrow>
      to_line (onDragging s2f edge did pos delta) =
        \<lparr>start = (start edge)\<lparr>y := y (start edge) + sy (flowDelta s2f pos delta)\<rparr>,
         end' = (end' edge)\<lparr>y := y (end' edge) + sy (flowDelta s2f pos delta)\<rparr>\<rparr>) \<and>
   (y (start edge) \<noteq> y (end' edge) \<longrightarrow>
      to_line (onDragging s2f edge did pos delta) =
        \<lparr>start = (start edge)\<lparr>x := x (start edge) + sx (flowDelta s2f pos delta)\<rparr>,
         end' = (end' edge)\<lparr>x := x (end' edge) + sx (flowDelta s2f pos delta)\<rparr>\<rparr>)"
  by (simp add: onDragging_def Let_def)

theorem onDragging_perpendicular_witness:
  "y (start \<lparr>start = mkPoint ''1'' 10 50, end' = mkPoint ''2'' 90 50\<rparr>) =
     y (end' \<lparr>start = mkPoint ''1'' 10 50, end' = mkPoint ''2'' 90 50\<rparr>) \<and>
   flowDelta sampleScreenToFlow \<lparr>sx = 40, sy = 160\<rparr> \<lparr>sx = 0, sy = 40\<rparr> = \<lparr>sx = 0, sy = 20\<rparr> \<and>
   to_line (onDragging sampleScreenToFlow \<lparr>start = mkPoint ''1'' 10 50, end' = mkPoint ''2'' 90 50\<rparr>
              (Some ''d'') \<lparr>sx = 40, sy = 160\<rparr> \<lparr>sx = 0, sy = 40\<rparr>)
     = \<lparr>start = mkPoint ''1'' 10 70, end' = mkPoint ''2'' 90 70\<rparr> \<and>
   y (start \<lparr>start = mkPoint ''1'' 30 10, end' = mkPoint ''2'' 30 80\<rparr>) \<noteq>
     y (end' \<lparr>start = mkPoint ''1'' 30 10, end' = mkPoint ''2'' 30 80\<rparr>) \<and>
   to_line (onDragging sampleScreenToFlow \<lparr>start = mkPoint ''1'' 30 10, end' = mkPoint ''2'' 30 80\<rparr>
              (Some ''d'') \<lparr>sx = 40, sy = 60\<rparr> \<lparr>sx = 6, sy = 8\<rparr>)
     = \<lparr>start = mkPoint ''1'' 33 10, end' = mkPoint ''2'' 33 80\<rparr>"
  using onDragging_perpendicular
      [of sampleScreenToFlow "\<lparr>start = mkPoint ''1'' 10 50, end' = mkPoint ''2'' 90 50\<rparr>"
          "Some ''d''" "\<lparr>sx = 40, sy = 160\<rparr>" "\<lparr>sx = 0, sy = 40\<rparr>"]
    onDragging_perpendicular
      [of sampleScreenToFlow "\<lparr>start = mkPoint ''1'' 30 10, end' = mkPoint ''2'' 30 80\<rparr>"
          "Some ''d''" "\<lparr>sx = 40, sy = 60\<rparr>" "\<lparr>sx = 6, sy = 8\<rparr>"]
  by (simp add: flowDelta_def sampleScreenToFlow_def mkPoint_def)

text \<open>
  A segment of length zero has equal x and equal y; the handler takes it as horizontal.
\<close>

theorem onDragging_zero_length_counterexample:
  "x (start \<lparr>start = mkPoint ''1'' 5 5, end' = mkPoint ''2'' 5 5\<rparr>) =
     x (end' \<lparr>start = mkPoint ''1'' 5 5, end' = mkPoint ''2'' 5 5\<rparr>) \<and>
   flowDelta sampleScreenToFlow \<lparr>sx = 40, sy = 60\<rparr> \<lparr>sx = 6, sy = 8\<rparr> = \<lparr>sx = 3, sy = 4\<rparr> \<and>
   to_line (onDragging sampleScreenToFlow \<lparr>start = mkPoint ''1'' 5 5, end' = mkPoint ''2'' 5 5\<rparr>
              (Some ''d'') \<lparr>sx = 40, sy = 60\<rparr> \<lparr>sx = 6, sy = 8\<rparr>)
     = \<lparr>start = mkPoint ''1'' 5 9, end' = mkPoint ''2'' 5 9\<rparr>"
  by (simp add: onDragging_def flowDelta_def sampleScreenToFlow_def mkPoint_def)

section \<open>\<open>mergeClosePoints\<close>\<close>

lemma mergeLoop_length: "length (mergeLoop t pos pts) = length pts"
  by (induction pts arbitrary: pos) (auto simp: Let_def split: prod.splits)

lemma mergeLoop_x: "map x (mergeLoop t pos pts) = snap t (pos_x pos) (map x pts)"
  by (induction pts arbitrary: pos)
     (auto simp: Let_def findPosition_def axisOf_def pushAxis_def split: prod.splits option.splits)

lemma mergeLoop_y: "map y (mergeLoop t pos pts) = snap t (pos_y pos) (map y pts)"
  by (induction pts arbitrary: pos)
     (auto simp: Let_def findPosition_def axisOf_def pushAxis_def split: prod.splits option.splits)

lemma mergeLoop_frame:
  "i < length pts \<Longrightarrow>
   mergeLoop t pos pts ! i = (pts ! i)\<lparr>x := x (mergeLoop t pos pts ! i), y := y (mergeLoop t pos pts ! i)\<rparr>"
proof (induction pts arbitrary: pos i)
  case Nil
  then show ?case by simp
next
  case (Cons p pts)
  show ?case
  proof (cases i)
    case 0
    then show ?thesis by (simp add: Let_def split: prod.splits)
  next
    case (Suc k)
    with Cons show ?thesis by (simp add: Let_def split: prod.splits)
  qed
qed

lemma snap_length: "length (snap t ps vs) = length vs"
  by (induction vs arbitrary: ps) (auto split: option.splits)

lemma snap_origin:
  "i < length vs \<Longrightarrow>
   snap t ps vs ! i \<in> set ps \<or> (\<exists>j\<le>i. snap t ps vs ! i = real_of_int \<lfloor>vs ! j\<rfloor>)"
proof (induction vs arbitrary: ps i)
  case Nil
  then show ?case by simp
next
  case (Cons v vs)
  show ?case
  proof (cases i)
    case 0
    then show ?thesis by (auto split: option.splits dest: find_Some_iff[THEN iffD1])
  next
    case (Suc k)
    then have k: "k < length vs" using Cons.prems by simp
    show ?thesis
    proof (cases "List.find (\<lambda>e. \<bar>real_of_int \<lfloor>v\<rfloor> - e\<bar> < t) ps")
      case None
      from Cons.IH[OF k, of "ps @ [real_of_int \<lfloor>v\<rfloor>]"] None Suc show ?thesis
        by (auto simp: nth_Cons')
    next
      case (Some a)
      from Cons.IH[OF k, of ps] Some Suc show ?thesis by auto
    qed
  qed
qed

lemma find_in: "List.find P ps = Some p \<Longrightarrow> p \<in> set ps \<and> P p"
  by (induction ps) (auto split: if_splits)

lemma find_None_all: "List.find P ps = None \<Longrightarrow> \<forall>e\<in>set ps. \<not> P e"
  by (simp add: find_None_iff)

lemma snapPos_mono: "set ps \<subseteq> set (snapPos t ps vs)"
proof (induction vs arbitrary: ps)
  case Nil
  show ?case by simp
next
  case (Cons v vs)
  show ?case
  proof (cases "List.find (\<lambda>e. \<bar>real_of_int \<lfloor>v\<rfloor> - e\<bar> < t) ps")
    case None
    with Cons[of "ps @ [real_of_int \<lfloor>v\<rfloor>]"] show ?thesis by auto
  next
    case (Some a)
    with Cons[of ps] show ?thesis by auto
  qed
qed

lemma snap_in_snapPos: "set (snap t ps vs) \<subseteq> set (snapPos t ps vs)"
proof (induction vs arbitrary: ps)
  case Nil
  show ?case by simp
next
  case (Cons v vs)
  show ?case
  proof (cases "List.find (\<lambda>e. \<bar>real_of_int \<lfloor>v\<rfloor> - e\<bar> < t) ps")
    case None
    with Cons[of "ps @ [real_of_int \<lfloor>v\<rfloor>]"]
      snapPos_mono[of "ps @ [real_of_int \<lfloor>v\<rfloor>]" t vs] show ?thesis by auto
  next
    case (Some a)
    with Cons[of ps] snapPos_mono[of ps t vs] find_in[OF Some] show ?thesis by auto
  qed
qed

lemma separated_snapPos: "separated t (set ps) \<Longrightarrow> separated t (set (snapPos t ps vs))"
proof (induction vs arbitrary: ps)
  case Nil
  then show ?case by simp
next
  case (Cons v vs)
  show ?case
  proof (cases "List.find (\<lambda>e. \<bar>real_of_int \<lfloor>v\<rfloor> - e\<bar> < t) ps")
    case None
    have "separated t (set (ps @ [real_of_int \<lfloor>v\<rfloor>]))"
      using Cons.prems find_None_all[OF None]
      by (auto simp: separated_def abs_minus_commute)
    from Cons.IH[OF this] None show ?thesis by simp
  next
    case (Some a)
    with Cons show ?thesis by simp
  qed
qed

lemma snap_close:
  "0 < t \<Longrightarrow> i < length vs \<Longrightarrow> \<bar>real_of_int \<lfloor>vs ! i\<rfloor> - snap t ps vs ! i\<bar> < t"
proof (induction vs arbitrary: ps i)
  case Nil
  then show ?case by simp
next
  case (Cons v vs)
  show ?case
  proof (cases "List.find (\<lambda>e. \<bar>real_of_int \<lfloor>v\<rfloor> - e\<bar> < t) ps")
    case None
    with Cons show ?thesis by (cases i) auto
  next
    case (Some a)
    with Cons find_in[OF Some] show ?thesis by (cases i) auto
  qed
qed

lemma find_hd: "ps \<noteq> [] \<Longrightarrow> P (hd ps) \<Longrightarrow> List.find P ps = Some (hd ps)"
  by (cases ps) auto

lemma snap_hd_wins:
  "ps \<noteq> [] \<Longrightarrow> j < length vs \<Longrightarrow> \<bar>real_of_int \<lfloor>vs ! j\<rfloor> - hd ps\<bar> < t \<Longrightarrow> snap t ps vs ! j = hd ps"
proof (induction vs arbitrary: ps j)
  case Nil
  then show ?case by simp
next
  case (Cons v vs)
  show ?case
  proof (cases j)
    case 0
    with Cons.prems find_hd[of ps "\<lambda>e. \<bar>real_of_int \<lfloor>v\<rfloor> - e\<bar> < t"] show ?thesis by simp
  next
    case (Suc k)
    show ?thesis
    proof (cases "List.find (\<lambda>e. \<bar>real_of_int \<lfloor>v\<rfloor> - e\<bar> < t) ps")
      case None
      with Cons.IH[of "ps @ [real_of_int \<lfloor>v\<rfloor>]" k] Cons.prems Suc show ?thesis by simp
    next
      case (Some a)
      with Cons.IH[of ps k] Cons.prems Suc show ?thesis by simp
    qed
  qed
qed

lemma snap_first_wins:
  assumes "0 < t" "j < length vs" "\<bar>real_of_int \<lfloor>vs ! j\<rfloor> - real_of_int \<lfloor>vs ! 0\<rfloor>\<bar> < t"
  shows "snap t [] vs ! j = real_of_int \<lfloor>vs ! 0\<rfloor>"
proof (cases vs)
  case Nil
  with assms show ?thesis by simp
next
  case (Cons v vs')
  show ?thesis
  proof (cases j)
    case 0
    with Cons show ?thesis by simp
  next
    case (Suc k)
    with Cons assms snap_hd_wins[of "[real_of_int \<lfloor>v\<rfloor>]" k vs' t] show ?thesis by simp
  qed
qed

lemma snap_separated:
  assumes "i < length vs" "j < length vs" "snap t [] vs ! i \<noteq> snap t [] vs ! j"
  shows "t \<le> \<bar>snap t [] vs ! i - snap t [] vs ! j\<bar>"
proof -
  have sep: "separated t (set (snapPos t [] vs))"
    by (rule separated_snapPos) (simp add: separated_def)
  have "snap t [] vs ! i \<in> set (snapPos t [] vs)" "snap t [] vs ! j \<in> set (snapPos t [] vs)"
    using snap_in_snapPos[of t "[]" vs] assms(1,2) by (auto simp: snap_length)
  with sep assms(3) show ?thesis unfolding separated_def by fastforce
qed

lemma snap_same_near:
  assumes "0 < t" "i < length vs" "j < length vs" "snap t ps vs ! i = snap t ps vs ! j"
  shows "\<bar>real_of_int \<lfloor>vs ! i\<rfloor> - real_of_int \<lfloor>vs ! j\<rfloor>\<bar> < 2 * t"
  using snap_close[OF assms(1,2), of ps] snap_close[OF assms(1,3), of ps] assms(4) by linarith

lemma mergeClosePoints_x: "map x (mergeClosePoints pts t) = snap t [] (map x pts)"
  by (simp add: mergeClosePoints_def mergeLoop_x)

lemma mergeClosePoints_y: "map y (mergeClosePoints pts t) = snap t [] (map y pts)"
  by (simp add: mergeClosePoints_def mergeLoop_y)

lemma mergeClosePoints_length: "length (mergeClosePoints pts t) = length pts"
  by (simp add: mergeClosePoints_def mergeLoop_length)

lemma mergeClosePoints_nth_x:
  "i < length pts \<Longrightarrow> x (mergeClosePoints pts t ! i) = snap t [] (map x pts) ! i"
  using mergeClosePoints_x[of pts t] mergeClosePoints_length[of pts t]
  by (metis nth_map)

lemma mergeClosePoints_nth_y:
  "i < length pts \<Longrightarrow> y (mergeClosePoints pts t ! i) = snap t [] (map y pts) ! i"
  using mergeClosePoints_y[of pts t] mergeClosePoints_length[of pts t]
  by (metis nth_map)

text \<open>
  Claim C9 (frame of coordinate merging). \<open>mergeClosePoints\<close> returns a list of the
  input's length; the point at each index is the input point at that index with new x and
  y (its identifier is kept), and each new coordinate is the floor of the coordinate, on
  the same axis, of the input point at that index or at an earlier one.
\<close>

theorem mergeClosePoints_frame:
  "length (mergeClosePoints points t) = length points \<and>
   (\<forall>i<length points.
      mergeClosePoints points t ! i =
        (points ! i)\<lparr>x := x (mergeClosePoints points t ! i), y := y (mergeClosePoints points t ! i)\<rparr> \<and>
      id (mergeClosePoints points t ! i) = id (points ! i) \<and>
      (\<exists>j\<le>i. x (mergeClosePoints points t ! i) = real_of_int \<lfloor>x (points ! j)\<rfloor>) \<and>
      (\<exists>j\<le>i. y (mergeClosePoints points t ! i) = real_of_int \<lfloor>y (points ! j)\<rfloor>))"
proof (intro conjI allI impI)
  show "length (mergeClosePoints points t) = length points"
    by (rule mergeClosePoints_length)
next
  fix i assume i: "i < length points"
  show fr: "mergeClosePoints points t ! i =
        (points ! i)\<lparr>x := x (mergeClosePoints points t ! i), y := y (mergeClosePoints points t ! i)\<rparr>"
    unfolding mergeClosePoints_def by (rule mergeLoop_frame[OF i])
  show "id (mergeClosePoints points t ! i) = id (points ! i)"
    by (subst fr) simp
  have "\<exists>j\<le>i. snap t [] (map x points) ! i = real_of_int \<lfloor>map x points ! j\<rfloor>"
    using snap_origin[of i "map x points" t "[]"] i by simp
  then show "\<exists>j\<le>i. x (mergeClosePoints points t ! i) = real_of_int \<lfloor>x (points ! j)\<rfloor>"
    using i by (auto simp: mergeClosePoints_nth_x)
  have "\<exists>j\<le>i. snap t [] (map y points) ! i = real_of_int \<lfloor>map y points ! j\<rfloor>"
    using snap_origin[of i "map y points" t "[]"] i by simp
  then show "\<exists>j\<le>i. y (mergeClosePoints points t ! i) = real_of_int \<lfloor>y (points ! j)\<rfloor>"
    using i by (auto simp: mergeClosePoints_nth_y)
qed

theorem mergeClosePoints_frame_witness:
  "length (mergeClosePoints [mkPoint ''a'' (1/2) 0, mkPoint ''b'' (7/2) 9] 4) = 2 \<and>
   mergeClosePoints [mkPoint ''a'' (1/2) 0, mkPoint ''b'' (7/2) 9] 4 ! 1 = mkPoint ''b'' 0 9 \<and>
   id (mergeClosePoints [mkPoint ''a'' (1/2) 0, mkPoint ''b'' (7/2) 9] 4 ! 1) =
   id ([mkPoint ''a'' (1/2) 0, mkPoint ''b'' (7/2) 9] ! 1) \<and>
   x (mergeClosePoints [mkPoint ''a'' (1/2) 0, mkPoint ''b'' (7/2) 9] 4 ! 1) =
   real_of_int \<lfloor>x ([mkPoint ''a'' (1/2) 0, mkPoint ''b'' (7/2) 9] ! 0)\<rfloor>"
proof -
  have v: "mergeClosePoints [mkPoint ''a'' (1/2) 0, mkPoint ''b'' (7/2) 9] 4 =
           [mkPoint ''a'' 0 0, mkPoint ''b'' 0 9]"
    by (simp add: mergeClosePoints_def mkPoint_def findPosition_def axisOf_def pushAxis_def)
  show ?thesis
    using mergeClosePoints_frame [of "[mkPoint ''a'' (1/2) 0, mkPoint ''b'' (7/2) 9]" 4]
    unfolding v by (simp add: mkPoint_def)
qed

text \<open>
  Claim C4 (merge threshold), as the code has it, for the threshold 4. On each axis a
  point's representative is strictly less than 4 away from the floor of its coordinate; a
  point whose floored coordinate is strictly less than 4 away from the first point's
  floored coordinate gets the first point's representative; two points with the same
  representative have floored coordinates strictly less than 8 apart; and two different
  representatives are at least 4 apart.
\<close>

theorem mergeClosePoints_threshold:
  assumes "i < length points" and "j < length points"
  shows "\<bar>real_of_int \<lfloor>x (points ! i)\<rfloor> - x (mergeClosePoints points 4 ! i)\<bar> < 4 \<and>
         \<bar>real_of_int \<lfloor>y (points ! i)\<rfloor> - y (mergeClosePoints points 4 ! i)\<bar> < 4 \<and>
         (\<bar>real_of_int \<lfloor>x (points ! j)\<rfloor> - real_of_int \<lfloor>x (points ! 0)\<rfloor>\<bar> < 4 \<longrightarrow>
            x (mergeClosePoints points 4 ! j) = x (mergeClosePoints points 4 ! 0)) \<and>
         (\<bar>real_of_int \<lfloor>y (points ! j)\<rfloor> - real_of_int \<lfloor>y (points ! 0)\<rfloor>\<bar> < 4 \<longrightarrow>
            y (mergeClosePoints points 4 ! j) = y (mergeClosePoints points 4 ! 0)) \<and>
         (x (mergeClosePoints points 4 ! i) = x (mergeClosePoints points 4 ! j) \<longrightarrow>
            \<bar>real_of_int \<lfloor>x (points ! i)\<rfloor> - real_of_int \<lfloor>x (points ! j)\<rfloor>\<bar> < 8) \<and>
         (y (mergeClosePoints points 4 ! i) = y (mergeClosePoints points 4 ! j) \<longrightarrow>
            \<bar>real_of_int \<lfloor>y (points ! i)\<rfloor> - real_of_int \<lfloor>y (points ! j)\<rfloor>\<bar> < 8) \<and>
         (x (mergeClosePoints points 4 ! i) \<noteq> x (mergeClosePoints points 4 ! j) \<longrightarrow>
            4 \<le> \<bar>x (mergeClosePoints points 4 ! i) - x (mergeClosePoints points 4 ! j)\<bar>) \<and>
         (y (mergeClosePoints points 4 ! i) \<noteq> y (mergeClosePoints points 4 ! j) \<longrightarrow>
            4 \<le> \<bar>y (mergeClosePoints points 4 ! i) - y (mergeClosePoints points 4 ! j)\<bar>)"
proof -
  have pos: "(0::real) < 4" by simp
  have z: "0 < length points" using assms(1) by auto
  have li: "i < length (map x points)" "i < length (map y points)"
    and lj: "j < length (map x points)" "j < length (map y points)"
    using assms by simp_all
  note nx = mergeClosePoints_nth_x[OF assms(1), of 4] mergeClosePoints_nth_x[OF assms(2), of 4]
    mergeClosePoints_nth_x[OF z, of 4]
  note ny = mergeClosePoints_nth_y[OF assms(1), of 4] mergeClosePoints_nth_y[OF assms(2), of 4]
    mergeClosePoints_nth_y[OF z, of 4]
  have c1: "\<bar>real_of_int \<lfloor>x (points ! i)\<rfloor> - x (mergeClosePoints points 4 ! i)\<bar> < 4"
    using snap_close[OF pos li(1), of "[]"] assms(1) by (simp add: nx)
  have c2: "\<bar>real_of_int \<lfloor>y (points ! i)\<rfloor> - y (mergeClosePoints points 4 ! i)\<bar> < 4"
    using snap_close[OF pos li(2), of "[]"] assms(1) by (simp add: ny)
  have c3: "\<bar>real_of_int \<lfloor>x (points ! j)\<rfloor> - real_of_int \<lfloor>x (points ! 0)\<rfloor>\<bar> < 4 \<longrightarrow>
            x (mergeClosePoints points 4 ! j) = x (mergeClosePoints points 4 ! 0)"
    using snap_first_wins[OF pos lj(1)] snap_first_wins[OF pos, of 0 "map x points"] assms(2) z
    by (simp add: nx)
  have c4: "\<bar>real_of_int \<lfloor>y (points ! j)\<rfloor> - real_of_int \<lfloor>y (points ! 0)\<rfloor>\<bar> < 4 \<longrightarrow>
            y (mergeClosePoints points 4 ! j) = y (mergeClosePoints points 4 ! 0)"
    using snap_first_wins[OF pos lj(2)] snap_first_wins[OF pos, of 0 "map y points"] assms(2) z
    by (simp add: ny)
  have c5: "x (mergeClosePoints points 4 ! i) = x (mergeClosePoints points 4 ! j) \<longrightarrow>
            \<bar>real_of_int \<lfloor>x (points ! i)\<rfloor> - real_of_int \<lfloor>x (points ! j)\<rfloor>\<bar> < 8"
    using snap_same_near[OF pos li(1) lj(1), of "[]"] assms by (simp add: nx)
  have c6: "y (mergeClosePoints points 4 ! i) = y (mergeClosePoints points 4 ! j) \<longrightarrow>
            \<bar>real_of_int \<lfloor>y (points ! i)\<rfloor> - real_of_int \<lfloor>y (points ! j)\<rfloor>\<bar> < 8"
    using snap_same_near[OF pos li(2) lj(2), of "[]"] assms by (simp add: ny)
  have c7: "x (mergeClosePoints points 4 ! i) \<noteq> x (mergeClosePoints points 4 ! j) \<longrightarrow>
            4 \<le> \<bar>x (mergeClosePoints points 4 ! i) - x (mergeClosePoints points 4 ! j)\<bar>"
    using snap_separated[OF li(1) lj(1), of 4] by (simp add: nx)
  have c8: "y (mergeClosePoints points 4 ! i) \<noteq> y (mergeClosePoints points 4 ! j) \<longrightarrow>
            4 \<le> \<bar>y (mergeClosePoints points 4 ! i) - y (mergeClosePoints points 4 ! j)\<bar>"
    using snap_separated[OF li(2) lj(2), of 4] by (simp add: ny)
  from c1 c2 c3 c4 c5 c6 c7 c8 show ?thesis by blast
qed

theorem mergeClosePoints_threshold_witness:
  "(1::nat) < length [mkPoint ''a'' 0 0, mkPoint ''b'' 6 3, mkPoint ''c'' 3 (-3)] \<and>
   (2::nat) < length [mkPoint ''a'' 0 0, mkPoint ''b'' 6 3, mkPoint ''c'' 3 (-3)] \<and>
   \<bar>real_of_int \<lfloor>x ([mkPoint ''a'' 0 0, mkPoint ''b'' 6 3, mkPoint ''c'' 3 (-3)] ! 2)\<rfloor> -
     real_of_int \<lfloor>x ([mkPoint ''a'' 0 0, mkPoint ''b'' 6 3, mkPoint ''c'' 3 (-3)] ! 0)\<rfloor>\<bar> < 4 \<and>
   x (mergeClosePoints [mkPoint ''a'' 0 0, mkPoint ''b'' 6 3, mkPoint ''c'' 3 (-3)] 4 ! 2) =
   x (mergeClosePoints [mkPoint ''a'' 0 0, mkPoint ''b'' 6 3, mkPoint ''c'' 3 (-3)] 4 ! 0) \<and>
   x (mergeClosePoints [mkPoint ''a'' 0 0, mkPoint ''b'' 6 3, mkPoint ''c'' 3 (-3)] 4 ! 1) \<noteq>
   x (mergeClosePoints [mkPoint ''a'' 0 0, mkPoint ''b'' 6 3, mkPoint ''c'' 3 (-3)] 4 ! 2) \<and>
   4 \<le> \<bar>x (mergeClosePoints [mkPoint ''a'' 0 0, mkPoint ''b'' 6 3, mkPoint ''c'' 3 (-3)] 4 ! 1) -
         x (mergeClosePoints [mkPoint ''a'' 0 0, mkPoint ''b'' 6 3, mkPoint ''c'' 3 (-3)] 4 ! 2)\<bar> \<and>
   y (mergeClosePoints [mkPoint ''a'' 0 0, mkPoint ''b'' 6 3, mkPoint ''c'' 3 (-3)] 4 ! 1) =
   y (mergeClosePoints [mkPoint ''a'' 0 0, mkPoint ''b'' 6 3, mkPoint ''c'' 3 (-3)] 4 ! 2) \<and>
   \<bar>real_of_int \<lfloor>y ([mkPoint ''a'' 0 0, mkPoint ''b'' 6 3, mkPoint ''c'' 3 (-3)] ! 1)\<rfloor> -
     real_of_int \<lfloor>y ([mkPoint ''a'' 0 0, mkPoint ''b'' 6 3, mkPoint ''c'' 3 (-3)] ! 2)\<rfloor>\<bar> < 8"
proof -
  have v: "mergeClosePoints [mkPoint ''a'' 0 0, mkPoint ''b'' 6 3, mkPoint ''c'' 3 (-3)] 4
     = [mkPoint ''a'' 0 0, mkPoint ''b'' 6 0, mkPoint ''c'' 0 0]"
    by (simp add: mergeClosePoints_def mkPoint_def findPosition_def axisOf_def pushAxis_def)
  have h1: "(1::nat) < length [mkPoint ''a'' 0 0, mkPoint ''b'' 6 3, mkPoint ''c'' 3 (-3)]" by simp
  have h2: "(2::nat) < length [mkPoint ''a'' 0 0, mkPoint ''b'' 6 3, mkPoint ''c'' 3 (-3)]" by simp
  show ?thesis
    using mergeClosePoints_threshold [OF h1 h2]
    unfolding v by (simp add: mkPoint_def)
qed

text \<open>
  The clustering depends on the order: with the x coordinates 0, 6, 3 the points at 6 and
  3 are 3 apart and get the representatives 6 and 0; with the y coordinates 0, 3, -3 the
  points at 3 and -3 are 6 apart and both get 0.
\<close>

theorem mergeClosePoints_order_dependent:
  "mergeClosePoints [mkPoint ''a'' 0 0, mkPoint ''b'' 6 3, mkPoint ''c'' 3 (-3)] 4
     = [mkPoint ''a'' 0 0, mkPoint ''b'' 6 0, mkPoint ''c'' 0 0] \<and>
   \<bar>x (mkPoint ''b'' 6 3) - x (mkPoint ''c'' 3 (-3))\<bar> < 4 \<and>
   x (mkPoint ''b'' 6 0) \<noteq> x (mkPoint ''c'' 0 0) \<and>
   \<bar>y (mkPoint ''b'' 6 3) - y (mkPoint ''c'' 3 (-3))\<bar> > 4 \<and>
   y (mkPoint ''b'' 6 0) = y (mkPoint ''c'' 0 0)"
  by (simp add: mergeClosePoints_def mkPoint_def findPosition_def axisOf_def pushAxis_def)

section \<open>\<open>removeRepeatPoints\<close>\<close>

lemma nth_filter_Cons:
  "map (\<lambda>i. (p # ys) ! i) (filter P [0 ..< Suc (length ys)]) =
     (if P 0 then [p] else []) @ map (\<lambda>i. ys ! i) (filter (\<lambda>i. P (Suc i)) [0 ..< length ys])"
proof -
  have "[0 ..< Suc (length ys)] = 0 # map Suc [0 ..< length ys]"
    by (simp only: map_Suc_upt) (simp add: upt_rec)
  then show ?thesis by (simp add: filter_map comp_def)
qed

lemma forEachPoint_indices:
  "xs \<noteq> [] \<Longrightarrow>
   forEachPoint seen xs =
     map (\<lambda>i. xs ! i)
       (filter (\<lambda>i. i = length xs - 1 \<or>
                     (pointKey (xs ! i) \<notin> set seen \<and>
                      pointKey (xs ! i) \<notin> set (map pointKey (take i xs))))
          [0 ..< length xs])"
proof (induction seen xs rule: forEachPoint.induct)
  case (1 seen)
  then show ?case by simp
next
  case (2 seen p)
  show ?case by simp
next
  case (3 seen p q rest)
  define ys where "ys = q # rest"
  have ne: "ys \<noteq> []" and len: "length ys = Suc (length rest)" by (simp_all add: ys_def)
  define P where "P = (\<lambda>i. i = length (p # ys) - 1 \<or>
                     (pointKey ((p # ys) ! i) \<notin> set seen \<and>
                      pointKey ((p # ys) ! i) \<notin> set (map pointKey (take i (p # ys)))))"
  have P0: "P 0 = (pointKey p \<notin> set seen)" by (simp add: P_def len)
  have rhs: "map (\<lambda>i. (p # ys) ! i) (filter P [0 ..< length (p # ys)]) =
     (if P 0 then [p] else []) @ map (\<lambda>i. ys ! i) (filter (\<lambda>i. P (Suc i)) [0 ..< length ys])"
    using nth_filter_Cons[of p ys P] by simp
  show ?case
  proof (cases "pointKey p \<in> set seen")
    case True
    have PS: "\<And>i. P (Suc i) = (i = length ys - 1 \<or>
                     (pointKey (ys ! i) \<notin> set seen \<and>
                      pointKey (ys ! i) \<notin> set (map pointKey (take i ys))))"
      using True by (auto simp: P_def len)
    have "forEachPoint seen (p # ys) = forEachPoint seen ys" using True by (simp add: ys_def)
    also have "\<dots> = map (\<lambda>i. ys ! i) (filter (\<lambda>i. P (Suc i)) [0 ..< length ys])"
      using 3(1)[OF True] unfolding ys_def[symmetric] PS using ne by simp
    also have "\<dots> = map (\<lambda>i. (p # ys) ! i) (filter P [0 ..< length (p # ys)])"
      unfolding rhs using True P0 by simp
    finally show ?thesis unfolding P_def ys_def .
  next
    case False
    have PS: "\<And>i. P (Suc i) = (i = length ys - 1 \<or>
                     (pointKey (ys ! i) \<notin> set (seen @ [pointKey p]) \<and>
                      pointKey (ys ! i) \<notin> set (map pointKey (take i ys))))"
      by (auto simp: P_def len)
    have "forEachPoint seen (p # ys) = p # forEachPoint (seen @ [pointKey p]) ys"
      using False by (simp add: ys_def)
    also have "\<dots> = p # map (\<lambda>i. ys ! i) (filter (\<lambda>i. P (Suc i)) [0 ..< length ys])"
      using 3(2)[OF False] unfolding ys_def[symmetric] PS using ne by simp
    also have "\<dots> = map (\<lambda>i. (p # ys) ! i) (filter P [0 ..< length (p # ys)])"
      unfolding rhs using False P0 by simp
    finally show ?thesis unfolding P_def ys_def .
  qed
qed

text \<open>
  Claim C3 (duplicate removal), as the code has it. For a non-empty list whose first point
  differs from its last point in a coordinate (or that has one point only), the first and
  the last point are kept, and any other point is kept exactly when neither an earlier
  point nor the last point has its coordinates: of several points with the same
  coordinates the first one stays. On (0,0), (0,0), (50,0), (100,0), (100,0) the result is
  (0,0), (50,0), (100,0).
\<close>

theorem removeRepeatPoints_policy:
  assumes "points \<noteq> []"
      and "length points = 1 \<or> pointKey (hd points) \<noteq> pointKey (last points)"
  shows "removeRepeatPoints points =
           Inr (map (\<lambda>i. points ! i) (filter (keptIndex points) [0 ..< length points]))"
proof -
  have "filter (\<lambda>i. i = length points - 1 \<or>
                     (pointKey (points ! i) \<notin> set [pointKey (points ! (length points - 1))] \<and>
                      pointKey (points ! i) \<notin> set (map pointKey (take i points))))
          [0 ..< length points] = filter (keptIndex points) [0 ..< length points]"
  proof (rule filter_cong[OF refl])
    fix i assume "i \<in> set [0 ..< length points]"
    show "(i = length points - 1 \<or>
                     (pointKey (points ! i) \<notin> set [pointKey (points ! (length points - 1))] \<and>
                      pointKey (points ! i) \<notin> set (map pointKey (take i points)))) = keptIndex points i"
    proof (cases "i = 0")
      case True
      with assms show ?thesis
        by (auto simp: keptIndex_def hd_conv_nth last_conv_nth)
    next
      case False
      then show ?thesis by (auto simp: keptIndex_def)
    qed
  qed
  with assms(1) forEachPoint_indices[OF assms(1), of "[pointKey (points ! (length points - 1))]"]
  show ?thesis by (simp add: removeRepeatPoints_def)
qed

theorem removeRepeatPoints_policy_witness:
  "[mkPoint ''a'' 0 0, mkPoint ''b'' 0 0, mkPoint ''c'' 50 0, mkPoint ''d'' 100 0, mkPoint ''e'' 100 0] \<noteq> [] \<and>
   pointKey (hd [mkPoint ''a'' 0 0, mkPoint ''b'' 0 0, mkPoint ''c'' 50 0, mkPoint ''d'' 100 0, mkPoint ''e'' 100 0])
     \<noteq> pointKey (last [mkPoint ''a'' 0 0, mkPoint ''b'' 0 0, mkPoint ''c'' 50 0, mkPoint ''d'' 100 0, mkPoint ''e'' 100 0]) \<and>
   removeRepeatPoints [mkPoint ''a'' 0 0, mkPoint ''b'' 0 0, mkPoint ''c'' 50 0, mkPoint ''d'' 100 0, mkPoint ''e'' 100 0]
     = Inr [mkPoint ''a'' 0 0, mkPoint ''c'' 50 0, mkPoint ''e'' 100 0]"
proof -
  have h1: "[mkPoint ''a'' 0 0, mkPoint ''b'' 0 0, mkPoint ''c'' 50 0, mkPoint ''d'' 100 0, mkPoint ''e'' 100 0] \<noteq> []"
    by simp
  have h2: "length [mkPoint ''a'' 0 0, mkPoint ''b'' 0 0, mkPoint ''c'' 50 0, mkPoint ''d'' 100 0, mkPoint ''e'' 100 0] = 1 \<or>
    pointKey (hd [mkPoint ''a'' 0 0, mkPoint ''b'' 0 0, mkPoint ''c'' 50 0, mkPoint ''d'' 100 0, mkPoint ''e'' 100 0])
     \<noteq> pointKey (last [mkPoint ''a'' 0 0, mkPoint ''b'' 0 0, mkPoint ''c'' 50 0, mkPoint ''d'' 100 0, mkPoint ''e'' 100 0])"
    by (simp add: pointKey_def mkPoint_def)
  show ?thesis
    using removeRepeatPoints_policy [OF h1 h2]
    by (simp add: keptIndex_def pointKey_def mkPoint_def upt_rec)
qed

text \<open>
  On (9,9), (0,0), (50,0), (0,0), (100,0) the first (0,0) stays and the second goes; the
  policy of the claim would drop the first and keep the second.
\<close>

theorem removeRepeatPoints_keeps_first_occurrence:
  "removeRepeatPoints [mkPoint ''a'' 9 9, mkPoint ''b'' 0 0, mkPoint ''c'' 50 0, mkPoint ''d'' 0 0, mkPoint ''e'' 100 0]
     = Inr [mkPoint ''a'' 9 9, mkPoint ''b'' 0 0, mkPoint ''c'' 50 0, mkPoint ''e'' 100 0] \<and>
   dropEarlierDuplicates [mkPoint ''a'' 9 9, mkPoint ''b'' 0 0, mkPoint ''c'' 50 0, mkPoint ''d'' 0 0, mkPoint ''e'' 100 0]
     = [mkPoint ''a'' 9 9, mkPoint ''c'' 50 0, mkPoint ''d'' 0 0, mkPoint ''e'' 100 0]"
  by (simp add: removeRepeatPoints_def dropEarlierDuplicates_def pointKey_def mkPoint_def upt_rec)

section \<open>\<open>optimizeInputPoints\<close>\<close>

subsection \<open>Duplicate removal on keys\<close>

lemma forEachPoint_Cons:
  "xs \<noteq> [] \<Longrightarrow>
   forEachPoint seen (p # xs) =
     (if pointKey p \<in> set seen then forEachPoint seen xs
      else p # forEachPoint (seen @ [pointKey p]) xs)"
  by (cases xs) simp_all

lemma forEachPoint_keys:
  "map pointKey (forEachPoint seen (ps @ [l])) = firstSeen seen (map pointKey ps) @ [pointKey l]"
proof (induction ps arbitrary: seen)
  case Nil
  show ?case by simp
next
  case (Cons p ps)
  have ne: "ps @ [l] \<noteq> []" by simp
  show ?case
    using Cons[of seen] Cons[of "seen @ [pointKey p]"] forEachPoint_Cons[OF ne, of seen p]
    by (simp del: forEachPoint.simps)
qed

lemma forEachPoint_subset: "set (forEachPoint seen ps) \<subseteq> set ps"
  by (induction seen ps rule: forEachPoint.induct) auto

lemma forEachPoint_last: "ps \<noteq> [] \<Longrightarrow> forEachPoint seen ps \<noteq> [] \<and> last (forEachPoint seen ps) = last ps"
  by (induction seen ps rule: forEachPoint.induct) auto

lemma renumber_length: "length (renumber ps) = length ps"
  by (simp add: renumber_def)

lemma renumber_nth:
  "i < length ps \<Longrightarrow> renumber ps ! i = (ps ! i)\<lparr>id := stringOfNat (i + 1)\<rparr>"
  by (simp add: renumber_def nth_enumerate_eq)

lemma renumber_x: "map x (renumber ps) = map x ps"
  by (rule nth_equalityI) (simp_all add: renumber_length renumber_nth)

lemma renumber_y: "map y (renumber ps) = map y ps"
  by (rule nth_equalityI) (simp_all add: renumber_length renumber_nth)

lemma renumber_keys: "map pointKey (renumber ps) = map pointKey ps"
  by (rule nth_equalityI) (simp_all add: renumber_length renumber_nth pointKey_def)

lemma renumber_cong:
  assumes "map pointKey ps = map pointKey qs"
  shows "renumber ps = renumber qs"
proof (rule nth_equalityI)
  show len: "length (renumber ps) = length (renumber qs)"
    using assms map_eq_imp_length_eq[OF assms] by (simp add: renumber_length)
  fix i assume "i < length (renumber ps)"
  then have i: "i < length ps" "i < length qs" using len by (simp_all add: renumber_length)
  have "pointKey (ps ! i) = pointKey (qs ! i)"
    using assms i by (metis nth_map)
  then show "renumber ps ! i = renumber qs ! i"
    using i by (simp add: renumber_nth pointKey_def ControlPoint.equality)
qed

lemma firstSeen_cong_set: "set s1 = set s2 \<Longrightarrow> firstSeen s1 ks = firstSeen s2 ks"
proof (induction ks arbitrary: s1 s2)
  case Nil
  show ?case by simp
next
  case (Cons k ks)
  have a: "firstSeen s1 ks = firstSeen s2 ks" by (rule Cons.IH[OF Cons.prems])
  have "set (s1 @ [k]) = set (s2 @ [k])" using Cons.prems by simp
  then have b: "firstSeen (s1 @ [k]) ks = firstSeen (s2 @ [k]) ks" by (rule Cons.IH)
  show ?case using a b Cons.prems by simp
qed

lemma firstSeen_disjoint: "set (firstSeen seen ks) \<inter> set seen = {}"
proof (induction ks arbitrary: seen)
  case Nil
  show ?case by simp
next
  case (Cons k ks)
  from Cons[of seen] Cons[of "seen @ [k]"] show ?case by auto
qed

lemma firstSeen_distinct: "distinct (firstSeen seen ks)"
proof (induction ks arbitrary: seen)
  case Nil
  show ?case by simp
next
  case (Cons k ks)
  from Cons[of seen] Cons[of "seen @ [k]"] firstSeen_disjoint[of "seen @ [k]" ks]
  show ?case by auto
qed

lemma firstSeen_id: "distinct ks \<Longrightarrow> set ks \<inter> set seen = {} \<Longrightarrow> firstSeen seen ks = ks"
proof (induction ks arbitrary: seen)
  case Nil
  show ?case by simp
next
  case (Cons k ks)
  have d: "distinct ks" and k: "k \<notin> set seen" and kk: "k \<notin> set ks"
    using Cons.prems by auto
  have "set ks \<inter> set (seen @ [k]) = {}" using Cons.prems by auto
  from Cons.IH[OF d this] k show ?case by simp
qed

lemma firstSeen_append:
  "firstSeen seen (us @ ws) = firstSeen seen us @ firstSeen (seen @ us) ws"
proof (induction us arbitrary: seen)
  case Nil
  show ?case by simp
next
  case (Cons u us)
  show ?case
  proof (cases "u \<in> set seen")
    case True
    have "firstSeen (seen @ u # us) ws = firstSeen (seen @ us) ws"
      by (rule firstSeen_cong_set) (use True in auto)
    with True Cons[of seen] show ?thesis by simp
  next
    case False
    with Cons[of "seen @ [u]"] show ?thesis by simp
  qed
qed

lemma firstSeen_rerun:
  "firstSeen [l] (a # firstSeen [l] (a # mid) @ [l]) = firstSeen [l] (a # mid)"
proof -
  define D where "D = firstSeen [l] (a # mid)"
  have "firstSeen [l] (a # D @ [l]) = firstSeen [l] ((a # D) @ [l])" by simp
  also have "\<dots> = firstSeen [l] (a # D) @ firstSeen ([l] @ a # D) [l]"
    by (rule firstSeen_append)
  also have "\<dots> = firstSeen [l] (a # D)" by simp
  also have "\<dots> = D"
  proof (cases "a = l")
    case True
    then have D: "D = firstSeen [l] mid" by (simp add: D_def)
    have "firstSeen [l] D = D"
      unfolding D by (rule firstSeen_id[OF firstSeen_distinct firstSeen_disjoint])
    with True show ?thesis by simp
  next
    case False
    define D' where "D' = firstSeen [l, a] mid"
    have D: "D = a # D'" using False by (simp add: D_def D'_def)
    have "firstSeen [l, a] D' = D'"
      unfolding D'_def by (rule firstSeen_id[OF firstSeen_distinct firstSeen_disjoint])
    with False show ?thesis by (simp add: D)
  qed
  finally show ?thesis by (simp add: D_def)
qed

subsection \<open>Merging merged coordinates again\<close>

lemma snap_append: "snap t ps (us @ ws) = snap t ps us @ snap t (snapPos t ps us) ws"
proof (induction us arbitrary: ps)
  case Nil
  show ?case by simp
next
  case (Cons u us)
  show ?case
  proof (cases "List.find (\<lambda>e. \<bar>real_of_int \<lfloor>u\<rfloor> - e\<bar> < t) ps")
    case None
    with Cons[of "ps @ [real_of_int \<lfloor>u\<rfloor>]"] show ?thesis by simp
  next
    case (Some a)
    with Cons[of ps] show ?thesis by simp
  qed
qed

lemma snapPos_ints:
  "\<forall>e\<in>set ps. real_of_int \<lfloor>e\<rfloor> = e \<Longrightarrow> \<forall>e\<in>set (snapPos t ps vs). real_of_int \<lfloor>e\<rfloor> = e"
proof (induction vs arbitrary: ps)
  case Nil
  then show ?case by simp
next
  case (Cons v vs)
  show ?case
  proof (cases "List.find (\<lambda>e. \<bar>real_of_int \<lfloor>v\<rfloor> - e\<bar> < t) ps")
    case None
    have "\<forall>e\<in>set (ps @ [real_of_int \<lfloor>v\<rfloor>]). real_of_int \<lfloor>e\<rfloor> = e"
      using Cons.prems by simp
    from Cons.IH[OF this] None show ?thesis by simp
  next
    case (Some a)
    with Cons show ?thesis by simp
  qed
qed

lemma snap_fix:
  assumes "separated t S" and "\<forall>e\<in>S. real_of_int \<lfloor>e\<rfloor> = e"
  shows "set ps \<subseteq> S \<Longrightarrow> set vs \<subseteq> S \<Longrightarrow> snap t ps vs = vs \<and> set (snapPos t ps vs) \<subseteq> S"
proof (induction vs arbitrary: ps)
  case Nil
  then show ?case by simp
next
  case (Cons v vs)
  have v: "v \<in> S" and vs: "set vs \<subseteq> S" using Cons.prems(2) by simp_all
  have fl: "real_of_int \<lfloor>v\<rfloor> = v" using assms(2) v by blast
  have sn: "snap t ps (v # vs) =
      (case List.find (\<lambda>e. \<bar>v - e\<bar> < t) ps of
         Some p \<Rightarrow> p # snap t ps vs | None \<Rightarrow> v # snap t (ps @ [v]) vs)"
    unfolding snap.simps fl by (rule refl)
  have sp: "snapPos t ps (v # vs) =
      (case List.find (\<lambda>e. \<bar>v - e\<bar> < t) ps of
         Some p \<Rightarrow> snapPos t ps vs | None \<Rightarrow> snapPos t (ps @ [v]) vs)"
    unfolding snapPos.simps fl by (rule refl)
  show ?case
  proof (cases "List.find (\<lambda>e. \<bar>v - e\<bar> < t) ps")
    case None
    have "set (ps @ [v]) \<subseteq> S" using Cons.prems(1) v by simp
    from Cons.IH[OF this vs] show ?thesis unfolding sn sp None by simp
  next
    case (Some a)
    from find_in[OF Some] have "a \<in> set ps" "\<bar>v - a\<bar> < t" by blast+
    then have "v = a" using assms(1) Cons.prems(1) v unfolding separated_def by blast
    with Cons.IH[OF Cons.prems(1) vs] show ?thesis unfolding sn sp Some by simp
  qed
qed

lemma snap_rerun:
  assumes "real_of_int \<lfloor>a\<rfloor> = real_of_int \<lfloor>v0\<rfloor>"
      and "set mid \<subseteq> set (snap t [] (v0 # vs1))"
  shows "butlast (snap t [] (a # mid @ [b])) = real_of_int \<lfloor>v0\<rfloor> # mid"
    and "b \<in> set (snap t [] (v0 # vs1)) \<Longrightarrow> last (snap t [] (a # mid @ [b])) = b"
proof -
  define fa where "fa = real_of_int \<lfloor>v0\<rfloor>"
  define S where "S = set (snapPos t [] (v0 # vs1))"
  have sep: "separated t S"
    unfolding S_def by (rule separated_snapPos) (simp add: separated_def)
  have ints: "\<forall>e\<in>S. real_of_int \<lfloor>e\<rfloor> = e"
    unfolding S_def by (rule snapPos_ints) simp
  have faS: "set [fa] \<subseteq> S"
    using snapPos_mono[of "[fa]" t vs1] by (simp add: S_def fa_def)
  have RS: "set (snap t [] (v0 # vs1)) \<subseteq> S"
    unfolding S_def by (rule snap_in_snapPos)
  have midS: "set mid \<subseteq> S" using assms(2) RS by blast
  from snap_fix[OF sep ints faS midS]
  have m1: "snap t [fa] mid = mid" and m2: "set (snapPos t [fa] mid) \<subseteq> S" by simp_all
  have step: "snap t [] (a # mid @ [b]) = fa # mid @ snap t (snapPos t [fa] mid) [b]"
    using assms(1) by (simp add: fa_def[symmetric] snap_append m1)
  obtain c where c: "snap t (snapPos t [fa] mid) [b] = [c]"
    by (cases "snap t (snapPos t [fa] mid) [b]") (auto split: option.splits)
  show "butlast (snap t [] (a # mid @ [b])) = real_of_int \<lfloor>v0\<rfloor> # mid"
    unfolding step c by (simp add: fa_def butlast_append)
  show "last (snap t [] (a # mid @ [b])) = b" if "b \<in> set (snap t [] (v0 # vs1))"
  proof -
    have "set [b] \<subseteq> S" using that RS by auto
    from snap_fix[OF sep ints m2 this] have "snap t (snapPos t [fa] mid) [b] = [b]" by simp
    then show ?thesis unfolding step by simp
  qed
qed

lemma snap_hd: "snap t [] (v0 # vs) ! 0 = real_of_int \<lfloor>v0\<rfloor>"
  by simp

lemma points_eqI:
  assumes "map id ps = map id qs" and "map x ps = map x qs" and "map y ps = map y qs"
  shows "ps = (qs :: ControlPoint list)"
proof (rule nth_equalityI)
  show len: "length ps = length qs" using map_eq_imp_length_eq[OF assms(1)] .
  fix i assume i: "i < length ps"
  then have j: "i < length qs" using len by simp
  have "id (ps ! i) = id (qs ! i)" using assms(1) i j by (metis nth_map)
  moreover have "x (ps ! i) = x (qs ! i)" using assms(2) i j by (metis nth_map)
  moreover have "y (ps ! i) = y (qs ! i)" using assms(3) i j by (metis nth_map)
  ultimately show "ps ! i = qs ! i" by (simp add: ControlPoint.equality)
qed

lemma mergeLoop_id: "map id (mergeLoop t pos pts) = map id pts"
  by (induction pts arbitrary: pos) (auto simp: Let_def split: prod.splits)

lemma mergeClosePoints_id: "map id (mergeClosePoints pts t) = map id pts"
  by (simp add: mergeClosePoints_def mergeLoop_id)

subsection \<open>The optimizer unfolded\<close>

lemma hd_butlast_tl:
  assumes "4 \<le> length (M :: 'a list)"
  shows "M = hd M # butlast (tl M) @ [last M]"
    and "butlast (tl M) \<noteq> []"
    and "butlast (tl M) ! 0 = hd (butlast (tl M))"
    and "butlast (tl M) ! (length (butlast (tl M)) - 1) = last (butlast (tl M))"
    and "2 \<le> length (butlast (tl M))"
proof -
  obtain a M' where M: "M = a # M'" using assms by (cases M) auto
  have M': "M' \<noteq> []" using assms M by auto
  show "M = hd M # butlast (tl M) @ [last M]" using M M' by simp
  show len: "2 \<le> length (butlast (tl M))" using assms M by simp
  then have "0 < length (butlast (tl M))" by linarith
  then show ne: "butlast (tl M) \<noteq> []" by (rule length_greater_0_conv[THEN iffD1])
  show "butlast (tl M) ! 0 = hd (butlast (tl M))" using ne by (rule hd_conv_nth[symmetric])
  show "butlast (tl M) ! (length (butlast (tl M)) - 1) = last (butlast (tl M))"
    using ne by (rule last_conv_nth[symmetric])
qed

lemma optimizerInput_length: "length (optimizerInput p) = length (edgePoints p) + 4"
  by (simp add: optimizerInput_def)

lemma optimizeInputPoints_unfold:
  "optimizeInputPoints p =
     Inr \<lparr>res_source = correctEnd (source p) (hd (mergeClosePoints (optimizerInput p) 4)),
          res_target = correctEnd (target p) (last (mergeClosePoints (optimizerInput p) 4)),
          res_sourceOffset = hd (butlast (tl (mergeClosePoints (optimizerInput p) 4))),
          res_targetOffset = last (butlast (tl (mergeClosePoints (optimizerInput p) 4))),
          res_edgePoints =
            renumber (forEachPoint
              [pointKey (last (butlast (tl (mergeClosePoints (optimizerInput p) 4))))]
              (butlast (tl (mergeClosePoints (optimizerInput p) 4))))\<rparr>"
proof -
  define M where "M = mergeClosePoints (optimizerInput p) 4"
  have len: "4 \<le> length M"
    by (simp add: M_def mergeClosePoints_length optimizerInput_length)
  define E where "E = butlast (tl M)"
  note d = hd_butlast_tl[OF len, folded E_def]
  have M_eq: "mergeClosePoints
                ([asControlPoint (source p), sourceOffset p] @ edgePoints p @
                 [targetOffset p, asControlPoint (target p)]) 4 = M"
    by (simp add: M_def optimizerInput_def)
  show ?thesis
    unfolding optimizeInputPoints_def M_eq M_def[symmetric] E_def[symmetric] Let_def
      removeRepeatPoints_def d(3) d(4)
    using d(2) by (simp add: correctEnd_def)
qed

lemma axis_rerun:
  fixes f :: "ControlPoint \<Rightarrow> real"
  assumes mf: "\<And>pts. map f (mergeClosePoints pts 4) = snap 4 [] (map f pts)"
      and M: "M = mergeClosePoints (c0 # rest) 4"
      and fl: "real_of_int \<lfloor>f s1\<rfloor> = real_of_int \<lfloor>f c0\<rfloor>"
      and mid: "f ` set midp \<subseteq> f ` set M"
      and M2: "M2 = mergeClosePoints (s1 # midp @ [t1]) 4"
  shows "map f (butlast M2) = f (hd M) # map f midp"
    and "f t1 \<in> f ` set M \<Longrightarrow> f (last M2) = f t1"
    and "f (hd M) = real_of_int \<lfloor>f c0\<rfloor>"
proof -
  have fM: "map f M = snap 4 [] (f c0 # map f rest)" by (simp add: M mf)
  have Mne: "M \<noteq> []" using mergeClosePoints_length[of "c0 # rest" 4] M by auto
  have "f (hd M) = hd (map f M)" using Mne by (simp add: hd_map)
  also have "\<dots> = real_of_int \<lfloor>f c0\<rfloor>" unfolding fM by simp
  finally show h: "f (hd M) = real_of_int \<lfloor>f c0\<rfloor>" .
  have fM2: "map f M2 = snap 4 [] (f s1 # map f midp @ [f t1])" by (simp add: M2 mf)
  have M2ne: "M2 \<noteq> []" using mergeClosePoints_length[of "s1 # midp @ [t1]" 4] M2 by auto
  have sub: "set (map f midp) \<subseteq> set (snap 4 [] (f c0 # map f rest))"
    using mid unfolding fM[symmetric] by simp
  have "map f (butlast M2) = butlast (map f M2)" by (simp add: map_butlast)
  also have "\<dots> = real_of_int \<lfloor>f c0\<rfloor> # map f midp"
    unfolding fM2 by (rule snap_rerun(1)[OF fl sub])
  finally show "map f (butlast M2) = f (hd M) # map f midp" by (simp add: h)
  show "f (last M2) = f t1" if "f t1 \<in> f ` set M"
  proof -
    have "f t1 \<in> set (snap 4 [] (f c0 # map f rest))"
      using that unfolding fM[symmetric] by simp
    from snap_rerun(2)[OF fl sub this] have "last (map f M2) = f t1" unfolding fM2 .
    then show ?thesis using M2ne by (simp add: last_map)
  qed
qed

lemma merge_hd_axis:
  fixes f :: "ControlPoint \<Rightarrow> real"
  assumes mf: "\<And>pts. map f (mergeClosePoints pts 4) = snap 4 [] (map f pts)"
  shows "f (hd (mergeClosePoints (c0 # rest) 4)) = real_of_int \<lfloor>f c0\<rfloor>"
proof -
  have ne: "mergeClosePoints (c0 # rest) 4 \<noteq> []"
    using mergeClosePoints_length[of "c0 # rest" 4] by auto
  have "f (hd (mergeClosePoints (c0 # rest) 4)) = hd (map f (mergeClosePoints (c0 # rest) 4))"
    using ne by (simp add: hd_map)
  also have "\<dots> = real_of_int \<lfloor>f c0\<rfloor>" unfolding mf by simp
  finally show ?thesis .
qed

lemma correctEnd_id: "id (correctEnd h c) = id c"
  by (simp add: correctEnd_def)

lemma correctEnd_again:
  "correctEnd (withPosition (correctEnd h c) (position h)) c = correctEnd h c"
  by (simp add: correctEnd_def withPosition_def)

lemma correctEnd_last:
  assumes "id c' = id c"
      and "isHorizontalFromPosition (position h) \<Longrightarrow> y c' = y c"
      and "\<not> isHorizontalFromPosition (position h) \<Longrightarrow> x c' = x c"
  shows "correctEnd (withPosition (correctEnd h c) (position h)) c' = correctEnd h c"
  using assms by (simp add: correctEnd_def withPosition_def ControlPoint.equality)

lemma asControlPoint_withPosition: "asControlPoint (withPosition c pos) = c"
  by (simp add: asControlPoint_def withPosition_def)

lemma two_ends:
  assumes "2 \<le> length (E :: 'a list)"
  shows "E = (hd E # butlast (tl E)) @ [last E]"
proof -
  obtain a E' where E: "E = a # E'" using assms by (cases E) auto
  have "E' \<noteq> []" using assms E by auto
  then show ?thesis using E by simp
qed

lemma removal_rerun:
  assumes "2 \<le> length E"
  shows "renumber (forEachPoint [pointKey (last E)]
           (hd E # renumber (forEachPoint [pointKey (last E)] E) @ [last E]))
         = renumber (forEachPoint [pointKey (last E)] E)"
proof -
  define kl where "kl = pointKey (last E)"
  define ka where "ka = pointKey (hd E)"
  define mk where "mk = map pointKey (butlast (tl E))"
  define RN where "RN = renumber (forEachPoint [kl] E)"
  have E: "E = (hd E # butlast (tl E)) @ [last E]" by (rule two_ends[OF assms])
  have "map pointKey (forEachPoint [kl] E) =
        map pointKey (forEachPoint [kl] ((hd E # butlast (tl E)) @ [last E]))"
    using E by simp
  also have "\<dots> = firstSeen [kl] (ka # mk) @ [kl]"
    unfolding forEachPoint_keys by (simp add: ka_def mk_def kl_def)
  finally have k1: "map pointKey (forEachPoint [kl] E) = firstSeen [kl] (ka # mk) @ [kl]" .
  have kRN: "map pointKey RN = firstSeen [kl] (ka # mk) @ [kl]"
    by (simp only: RN_def renumber_keys k1)
  have "map pointKey (forEachPoint [kl] (hd E # RN @ [last E])) =
        map pointKey (forEachPoint [kl] ((hd E # RN) @ [last E]))" by simp
  also have "\<dots> = firstSeen [kl] (map pointKey (hd E # RN)) @ [kl]"
    unfolding forEachPoint_keys by (simp add: kl_def)
  also have "\<dots> = firstSeen [kl] (ka # firstSeen [kl] (ka # mk) @ [kl]) @ [kl]"
    by (simp only: list.map kRN ka_def)
  also have "\<dots> = firstSeen [kl] (ka # mk) @ [kl]"
    by (simp only: firstSeen_rerun)
  finally have "map pointKey (forEachPoint [kl] (hd E # RN @ [last E])) =
                map pointKey (forEachPoint [kl] E)" by (simp only: k1)
  from renumber_cong[OF this] show ?thesis by (simp only: RN_def kl_def)
qed

lemma rerun_merge:
  fixes p :: OptimizePointsParams
  defines "M \<equiv> mergeClosePoints (optimizerInput p) 4"
  defines "E \<equiv> butlast (tl M)"
  defines "s1 \<equiv> correctEnd (source p) (hd M)"
  defines "t1 \<equiv> correctEnd (target p) (last M)"
  assumes midx: "x ` set midp \<subseteq> x ` set E" and midy: "y ` set midp \<subseteq> y ` set E"
  defines "M2 \<equiv> mergeClosePoints (s1 # midp @ [t1]) 4"
  shows "butlast M2 = hd M # midp"
    and "id (last M2) = id (last M)"
    and "isHorizontalFromPosition (position (target p)) \<Longrightarrow> y (last M2) = y (last M)"
    and "\<not> isHorizontalFromPosition (position (target p)) \<Longrightarrow> x (last M2) = x (last M)"
proof -
  define c0 where "c0 = asControlPoint (source p)"
  define rest where "rest = sourceOffset p # edgePoints p @ [targetOffset p, asControlPoint (target p)]"
  have inp: "optimizerInput p = c0 # rest" by (simp add: optimizerInput_def c0_def rest_def)
  have M: "M = mergeClosePoints (c0 # rest) 4" by (simp add: M_def inp)
  have len: "4 \<le> length M"
    by (simp add: M_def mergeClosePoints_length optimizerInput_length)
  have Mdec: "M = hd M # E @ [last M]" unfolding E_def by (rule hd_butlast_tl(1)[OF len])
  have Mne: "M \<noteq> []" using len by auto
  have "set M = set (hd M # E @ [last M])" using Mdec by simp
  then have EM: "set E \<subseteq> set M" by auto
  have mx: "x ` set midp \<subseteq> x ` set M" using midx EM by blast
  have my: "y ` set midp \<subseteq> y ` set M" using midy EM by blast
  have lastM: "last M \<in> set M" using Mne by simp
  have hx: "x (hd M) = real_of_int \<lfloor>x c0\<rfloor>"
    unfolding M by (rule merge_hd_axis[of x, OF mergeClosePoints_x])
  have hy: "y (hd M) = real_of_int \<lfloor>y c0\<rfloor>"
    unfolding M by (rule merge_hd_axis[of y, OF mergeClosePoints_y])
  have c0x: "x c0 = x (source p)" and c0y: "y c0 = y (source p)"
    by (simp_all add: c0_def asControlPoint_def)
  have flx: "real_of_int \<lfloor>x s1\<rfloor> = real_of_int \<lfloor>x c0\<rfloor>"
    by (cases "isHorizontalFromPosition (position (source p))")
       (simp_all add: s1_def correctEnd_def c0x hx)
  have fly: "real_of_int \<lfloor>y s1\<rfloor> = real_of_int \<lfloor>y c0\<rfloor>"
    by (cases "isHorizontalFromPosition (position (source p))")
       (simp_all add: s1_def correctEnd_def c0y hy)
  have M2: "M2 = mergeClosePoints (s1 # midp @ [t1]) 4" by (simp add: M2_def)
  note ax = axis_rerun[of x, OF mergeClosePoints_x M flx mx M2]
  note ay = axis_rerun[of y, OF mergeClosePoints_y M fly my M2]
  have M2ne: "M2 \<noteq> []" using mergeClosePoints_length[of "s1 # midp @ [t1]" 4] M2 by auto
  have idM2: "map id M2 = id s1 # map id midp @ [id t1]"
    by (simp add: M2 mergeClosePoints_id)
  have "map id (butlast M2) = butlast (map id M2)" by (simp add: map_butlast)
  also have "\<dots> = id s1 # map id midp" unfolding idM2 by (simp add: butlast_append)
  finally have bid: "map id (butlast M2) = map id (hd M # midp)"
    by (simp add: s1_def correctEnd_id)
  show "butlast M2 = hd M # midp"
    by (rule points_eqI[OF bid]) (simp_all add: ax(1) ay(1))
  have "id (last M2) = last (map id M2)" using M2ne by (simp add: last_map)
  also have "\<dots> = id t1" unfolding idM2 by simp
  finally show "id (last M2) = id (last M)" by (simp add: t1_def correctEnd_id)
  show "y (last M2) = y (last M)" if "isHorizontalFromPosition (position (target p))"
  proof -
    have t: "y t1 = y (last M)" using that by (simp add: t1_def correctEnd_def)
    have "y t1 \<in> y ` set M" unfolding t using lastM by (rule imageI)
    from ay(2)[OF this] t show ?thesis by simp
  qed
  show "x (last M2) = x (last M)" if "\<not> isHorizontalFromPosition (position (target p))"
  proof -
    have t: "x t1 = x (last M)" using that by (simp add: t1_def correctEnd_def)
    have "x t1 \<in> x ` set M" unfolding t using lastM by (rule imageI)
    from ax(2)[OF this] t show ?thesis by simp
  qed
qed

lemma renumber_subset_axes:
  "x ` set (renumber ps) = x ` set ps" "y ` set (renumber ps) = y ` set ps"
  using renumber_x[of ps] renumber_y[of ps] by (metis set_map)+

lemma sample_run: "optimizeInputPoints (sampleParams Right Top) = Inr sampleResult"
  by (simp add: optimizeInputPoints_def sampleParams_def sampleResult_def mkPoint_def
        mkHandle_def asControlPoint_def mergeClosePoints_def findPosition_def axisOf_def
        pushAxis_def isHorizontalFromPosition_def removeRepeatPoints_def pointKey_def
        renumber_def enumerate_eq_zip upt_rec stringOfNat.simps digitChar_def)

text \<open>
  Claim C1 (endpoint fidelity). \<open>optimizeInputPoints\<close> returns a result for every input;
  the returned source has the source anchor's x for a Left or Right anchor and its y for a
  Top or Bottom anchor, whatever the merge made of it, and the returned target relates to
  the target anchor in the same way.
\<close>

theorem optimizeInputPoints_endpoint_fidelity:
  "\<exists>r. optimizeInputPoints p = Inr r \<and>
     (position (source p) = Left \<or> position (source p) = Right \<longrightarrow>
        x (res_source r) = x (source p)) \<and>
     (position (source p) = Top \<or> position (source p) = Bottom \<longrightarrow>
        y (res_source r) = y (source p)) \<and>
     (position (target p) = Left \<or> position (target p) = Right \<longrightarrow>
        x (res_target r) = x (target p)) \<and>
     (position (target p) = Top \<or> position (target p) = Bottom \<longrightarrow>
        y (res_target r) = y (target p))"
  by (subst optimizeInputPoints_unfold)
     (auto simp: correctEnd_def isHorizontalFromPosition_def)

theorem optimizeInputPoints_endpoint_fidelity_witness:
  "(\<exists>r. optimizeInputPoints (sampleParams Right Top) = Inr r \<and>
        x (res_source r) = 21 / 2 \<and> y (res_target r) = 1999 / 10) \<and>
   (\<exists>r. optimizeInputPoints (sampleParams Bottom Left) = Inr r \<and>
        y (res_source r) = 207 / 10 \<and> x (res_target r) = 1016 / 5)"
  using optimizeInputPoints_endpoint_fidelity [of "sampleParams Right Top"]
    optimizeInputPoints_endpoint_fidelity [of "sampleParams Bottom Left"]
  by (auto simp: sampleParams_def mkHandle_def)

text \<open>
  Claim C2 (idempotence). \<open>optimizeInputPoints\<close> returns a result for every input, and
  run again on that result (the returned source, target, offsets and edge points, the
  anchors keeping their sides) it returns the same result.
\<close>

theorem optimizeInputPoints_idempotent:
  "\<exists>r. optimizeInputPoints p = Inr r \<and> optimizeInputPoints (feedBack p r) = Inr r"
proof -
  define M where "M = mergeClosePoints (optimizerInput p) 4"
  define E where "E = butlast (tl M)"
  define RN where "RN = renumber (forEachPoint [pointKey (last E)] E)"
  define s1 where "s1 = correctEnd (source p) (hd M)"
  define t1 where "t1 = correctEnd (target p) (last M)"
  define r where "r = \<lparr>res_source = s1, res_target = t1, res_sourceOffset = hd E,
                        res_targetOffset = last E, res_edgePoints = RN\<rparr>"
  define midp where "midp = hd E # RN @ [last E]"
  define p' where "p' = feedBack p r"
  define M2 where "M2 = mergeClosePoints (optimizerInput p') 4"
  have run1: "optimizeInputPoints p = Inr r"
    by (subst optimizeInputPoints_unfold) (simp add: r_def s1_def t1_def RN_def E_def M_def)
  have len: "4 \<le> length M"
    by (simp add: M_def mergeClosePoints_length optimizerInput_length)
  have lenE: "2 \<le> length E" unfolding E_def by (rule hd_butlast_tl(5)[OF len])
  have Ene: "E \<noteq> []" using lenE by auto
  have inp2: "optimizerInput p' = s1 # midp @ [t1]"
    by (simp add: optimizerInput_def p'_def feedBack_def r_def midp_def asControlPoint_withPosition)
  have M2: "M2 = mergeClosePoints (s1 # midp @ [t1]) 4" by (simp add: M2_def inp2)
  have ends: "hd E \<in> set E" "last E \<in> set E" using Ene by simp_all
  have fe: "set (forEachPoint [pointKey (last E)] E) \<subseteq> set E" by (rule forEachPoint_subset)
  have midx: "x ` set midp \<subseteq> x ` set E"
    using ends fe by (auto simp: midp_def RN_def renumber_subset_axes)
  have midy: "y ` set midp \<subseteq> y ` set E"
    using ends fe by (auto simp: midp_def RN_def renumber_subset_axes)
  note rr = rerun_merge[of midp p, folded M_def, folded E_def, folded s1_def t1_def,
      OF midx midy, folded M2]
  have len2: "4 \<le> length M2"
    by (simp add: M2_def mergeClosePoints_length optimizerInput_length p'_def feedBack_def r_def
          RN_def renumber_length) 
  have M2ne: "M2 \<noteq> []" using len2 by auto
  have M2dec: "M2 = (hd M # midp) @ [last M2]"
    using append_butlast_last_id[OF M2ne] rr(1) by simp
  have hd2: "hd M2 = hd M" by (subst M2dec) simp
  have E2: "butlast (tl M2) = midp" by (subst M2dec) simp
  have hdm: "hd midp = hd E" and lastm: "last midp = last E" by (simp_all add: midp_def)
  have src: "correctEnd (source p') (hd M2) = s1"
    unfolding hd2 by (simp add: p'_def feedBack_def r_def s1_def correctEnd_again)
  have tgt: "correctEnd (target p') (last M2) = t1"
    using rr(2) rr(3) rr(4)
    by (simp add: p'_def feedBack_def r_def t1_def correctEnd_last)
  have rem: "renumber (forEachPoint [pointKey (last E)] midp) = RN"
    unfolding midp_def RN_def by (rule removal_rerun[OF lenE])
  have run2: "optimizeInputPoints p' = Inr r"
    by (subst optimizeInputPoints_unfold)
       (simp add: M2_def[symmetric] E2 hdm lastm src tgt rem r_def)
  from run1 run2 show ?thesis unfolding p'_def by blast
qed

theorem optimizeInputPoints_idempotent_witness:
  "optimizeInputPoints (sampleParams Right Top) = Inr sampleResult \<and>
   optimizeInputPoints (feedBack (sampleParams Right Top) sampleResult) = Inr sampleResult"
  using optimizeInputPoints_idempotent [of "sampleParams Right Top"]
  by (simp add: sample_run)

end
